theory Spec2Isabelle
  imports Complex_Main "HOL-Library.AList" "HOL-Library.Sublist"
begin

section \<open>The rate limiter of eldarthepro/limiter\<close>

text \<open>
  A shallow embedding of \<^verbatim>\<open>common.go\<close> and \<^verbatim>\<open>limiter.go\<close>.
  Go's \<^verbatim>\<open>int\<close> and \<^verbatim>\<open>time.Duration\<close> are modelled as \<open>int\<close>: the
  code only compares them with zero and subtracts clock readings, so no wrap-around is
  involved. A \<^verbatim>\<open>time.Time\<close> is the number of nanoseconds on the monotonic clock, and
  every function that reads \<^verbatim>\<open>time.Now()\<close> takes that reading as a parameter.
\<close>

subsection \<open>Constants (common.go)\<close>

type_synonym duration = int
type_synonym time = int

definition Second :: duration where
  "Second = 1000000000"

definition Minute :: duration where
  "Minute = 60 * Second"

definition defaultRps :: int where
  "defaultRps = 10"

definition defaultBurst :: int where
  "defaultBurst = 20"

definition defaultTTL :: duration where
  "defaultTTL = Minute * 5"

definition defaultCleanupFrequency :: duration where
  "defaultCleanupFrequency = Minute * 5"

definition defaultPeriod :: duration where
  "defaultPeriod = Second"

definition XOFF :: string where
  "XOFF = ''x-original-forwarded-for''"

subsection \<open>Options\<close>

text \<open>
  The struct \<^verbatim>\<open>limiterOptions\<close>. The declaration in \<^verbatim>\<open>common.go\<close> gives
  \<^verbatim>\<open>allowedIPs\<close> the type of a set, while every use in \<^verbatim>\<open>limiter.go\<close>
  (\<^verbatim>\<open>[]string{}\<close>, \<^verbatim>\<open>append\<close>, \<^verbatim>\<open>slices.Contains\<close>) treats it as a slice of
  strings; the model follows the uses.
\<close>

record limiterOptions =
  ttl :: duration
  customPeriod :: bool
  period :: duration
  burst :: int
  requests :: int
  cleanupFreq :: duration
  ipHeader :: string
  allowedPrefix :: "string list"
  allowedIPs :: "string list"

text \<open>An \<^verbatim>\<open>option\<close> of the source mutates the options it is given; here it returns them.\<close>

type_synonym limiter_option = "limiterOptions \<Rightarrow> limiterOptions"

definition defautlOptions :: limiterOptions where
  "defautlOptions =
     \<lparr> ttl = defaultTTL, customPeriod = False, period = defaultPeriod,
       burst = defaultBurst, requests = defaultRps,
       cleanupFreq = defaultCleanupFrequency, ipHeader = XOFF,
       allowedPrefix = [], allowedIPs = [] \<rparr>"

definition RpsWithBurst :: "int \<Rightarrow> int \<Rightarrow> limiter_option" where
  "RpsWithBurst rps0 burst0 =
     (let rps = (if rps0 < 0 then defaultRps else rps0);
          burst1 = (if burst0 < 0 then defaultRps else burst0)
      in (\<lambda>opts. opts\<lparr>requests := rps, burst := burst1\<rparr>))"

definition Rps :: "int \<Rightarrow> limiter_option" where
  "Rps rps0 =
     (let rps = (if rps0 < 0 then defaultRps else rps0)
      in (\<lambda>opts. opts\<lparr>requests := rps, burst := rps\<rparr>))"

definition Burst :: "int \<Rightarrow> limiter_option" where
  "Burst burst0 =
     (let burst1 = (if burst0 < 0 then defaultBurst else burst0)
      in (\<lambda>opts. opts\<lparr>burst := burst1\<rparr>))"

definition Period :: "int \<Rightarrow> duration \<Rightarrow> limiter_option" where
  "Period requests0 period0 =
     (let period1 = (if period0 < 0 then defaultPeriod else period0);
          requests1 = (if requests0 < 0 then 0 else requests0)
      in (\<lambda>opts. opts\<lparr>period := period1, customPeriod := True, requests := requests1\<rparr>))"

definition CleanupFrequency :: "duration \<Rightarrow> limiter_option" where
  "CleanupFrequency cf0 =
     (let cf = (if cf0 \<le> 0 then defaultCleanupFrequency else cf0)
      in (\<lambda>opts. opts\<lparr>cleanupFreq := cf\<rparr>))"

definition RecordTTL :: "duration \<Rightarrow> limiter_option" where
  "RecordTTL ttl0 =
     (let ttl1 = (if ttl0 < 0 then defaultTTL else ttl0)
      in (\<lambda>opts. opts\<lparr>ttl := ttl1\<rparr>))"

definition AllowedIPs :: "string list \<Rightarrow> limiter_option" where
  "AllowedIPs ip = (\<lambda>opts. opts\<lparr>allowedIPs := allowedIPs opts @ ip\<rparr>)"

definition AllowedPrefixes :: "string list \<Rightarrow> limiter_option" where
  "AllowedPrefixes pfx = (\<lambda>opts. opts\<lparr>allowedPrefix := allowedPrefix opts @ pfx\<rparr>)"

definition IPHeader :: "string \<Rightarrow> limiter_option" where
  "IPHeader h = (\<lambda>opts. opts\<lparr>ipHeader := h\<rparr>)"

subsection \<open>The limiter and its heap\<close>

text \<open>
  \<^verbatim>\<open>rate.Limit\<close> is a \<^verbatim>\<open>float64\<close>. The model keeps the special values of
  the division in \<^verbatim>\<open>New\<close> apart and takes a finite quotient as the exact real number.
\<close>

datatype rate_Limit = Finite real | PosInf | NegInf | NaN

definition Seconds :: "duration \<Rightarrow> real" where
  "Seconds d = real_of_int d / 1000000000"

text \<open>Line 95: \<^verbatim>\<open>rate.Limit(float64(o.requests) / o.period.Seconds())\<close>.\<close>

definition New_limit :: "int \<Rightarrow> duration \<Rightarrow> rate_Limit" where
  "New_limit reqs per =
     (if per = 0
      then (if 0 < reqs then PosInf else if reqs < 0 then NegInf else NaN)
      else Finite (real_of_int reqs / Seconds per))"

text \<open>
  Pointers. The registry is a \<^verbatim>\<open>map[string]*record\<close> and a record holds a
  \<^verbatim>\<open>*rate.Limiter\<close>: both are addresses into a heap of their own, or \<^verbatim>\<open>nil\<close>.
  The heaps are total functions; the cells from \<open>fresh\<close> on are not allocated yet.
\<close>

type_synonym addr = nat

datatype ptr = nil | Ptr addr

datatype error = NilPointerDereference | CloseOfClosedChannel | UnspecifiedRate

record record_t =
  lastSeen :: time
  limiter :: ptr

text \<open>
  Modelled from the spec: the token bucket is \<^verbatim>\<open>rate.Limiter\<close> of
  \<^verbatim>\<open>golang.org/x/time/rate\<close>, which is not among the source files. The state is
  that of section 3 of the specification (capacity, refillRate, tokens, lastRefillTime).
\<close>

record bucket =
  capacity :: int
  refillRate :: rate_Limit
  tokens :: real
  lastRefillTime :: time

datatype chan = Open | Closed

text \<open>
  The struct \<^verbatim>\<open>limiter\<close>. A Go map is kept as an association list with distinct
  keys: \<^verbatim>\<open>m[k]\<close> is \<open>map_of\<close>, \<^verbatim>\<open>m[k] = v\<close> is \<open>AList.update\<close>,
  \<^verbatim>\<open>delete(m, k)\<close> is \<open>AList.delete\<close> and \<^verbatim>\<open>len(m)\<close> is \<open>length\<close>. The
  embedded \<^verbatim>\<open>sync.RWMutex\<close> is not a field: a section between a lock and its unlock is
  one function of the model.
\<close>

record limiter_t =
  storage :: "(string \<times> ptr) list"
  opts :: limiterOptions
  stop :: chan
  limit :: rate_Limit
  recs :: "addr \<Rightarrow> record_t"
  lims :: "addr \<Rightarrow> bucket"
  fresh :: addr

definition New :: "limiter_option list \<Rightarrow> limiter_t" where
  "New os =
     (let o1 = foldl (\<lambda>acc opt. opt acc) defautlOptions os
      in \<lparr> storage = [], opts = o1, stop = Open,
           limit = New_limit (requests o1) (period o1),
           recs = (\<lambda>_. \<lparr>lastSeen = 0, limiter = nil\<rparr>),
           lims = (\<lambda>_. \<lparr>capacity = 0, refillRate = Finite 0, tokens = 0, lastRefillTime = 0\<rparr>),
           fresh = 0 \<rparr>)"

subsection \<open>Allow-list\<close>

text \<open>\<^verbatim>\<open>strings.HasPrefix(s, prefix)\<close> of the Go library.\<close>

definition HasPrefix :: "string \<Rightarrow> string \<Rightarrow> bool" where
  "HasPrefix s p = (length p \<le> length s \<and> take (length p) s = p)"

fun hasWhitelistedPrefix_loop :: "string list \<Rightarrow> string \<Rightarrow> bool" where
  "hasWhitelistedPrefix_loop [] ip = False"
| "hasWhitelistedPrefix_loop (v # vs) ip =
     (if HasPrefix ip v then True else hasWhitelistedPrefix_loop vs ip)"

definition hasWhitelistedPrefix :: "limiter_t \<Rightarrow> string \<Rightarrow> bool" where
  "hasWhitelistedPrefix l ip = hasWhitelistedPrefix_loop (allowedPrefix (opts l)) ip"

definition whiteListed :: "limiter_t \<Rightarrow> string \<Rightarrow> bool" where
  "whiteListed l ip = (ip \<in> set (allowedIPs (opts l)) \<or> hasWhitelistedPrefix l ip)"

subsection \<open>Stop\<close>

text \<open>Closing a channel that is already closed is a run-time panic of Go.\<close>

definition Stop :: "limiter_t \<Rightarrow> error + limiter_t" where
  "Stop l = (case stop l of Open \<Rightarrow> Inr (l\<lparr>stop := Closed\<rparr>)
                             | Closed \<Rightarrow> Inl CloseOfClosedChannel)"

subsection \<open>The token bucket\<close>

text \<open>
  Modelled from the spec: \<^verbatim>\<open>rate.NewLimiter\<close> is missing with the rest of
  \<^verbatim>\<open>golang.org/x/time/rate\<close>. Section 3: a bucket is "created with tokens = capacity".
  The specification does not give the first \<open>lastRefillTime\<close>; the model takes the zero
  time, and the bound by the capacity makes the choice irrelevant to the first admission.
\<close>

definition NewLimiter :: "rate_Limit \<Rightarrow> int \<Rightarrow> bucket" where
  "NewLimiter r b = \<lparr> capacity = b, refillRate = r, tokens = real_of_int b, lastRefillTime = 0 \<rparr>"

text \<open>
  Modelled from the spec: \<^verbatim>\<open>(*rate.Limiter).Allow\<close> is missing as well. Section 4.1:
  recompute \<open>tokens = min(capacity, tokens + elapsed * refillRate)\<close> with the elapsed time
  clamped to zero, set \<open>lastRefillTime = now\<close>, admit and take one token if \<open>tokens \<ge> 1\<close>,
  otherwise reject and leave the tokens; an infinite rate is "unlimited". The specification
  gives no meaning to the rates \<open>NegInf\<close> and \<open>NaN\<close>: the result is \<open>None\<close> there.
\<close>

definition tryAdmit :: "bucket \<Rightarrow> time \<Rightarrow> (bool \<times> bucket) option" where
  "tryAdmit b now =
     (case refillRate b of
        PosInf \<Rightarrow> Some (True, b)
      | Finite r \<Rightarrow>
          (let elapsed = max 0 (Seconds (now - lastRefillTime b));
               tk = min (real_of_int (capacity b)) (tokens b + elapsed * r);
               b1 = b\<lparr>tokens := tk, lastRefillTime := now\<rparr>
           in if 1 \<le> tk then Some (True, b1\<lparr>tokens := tk - 1\<rparr>) else Some (False, b1))
      | NegInf \<Rightarrow> None
      | NaN \<Rightarrow> None)"

text \<open>\<^verbatim>\<open>p.Allow()\<close> on a pointer into the heap of buckets.\<close>

definition Allow :: "limiter_t \<Rightarrow> ptr \<Rightarrow> time \<Rightarrow> (error + bool) \<times> limiter_t" where
  "Allow l p now =
     (case p of
        nil \<Rightarrow> (Inl NilPointerDereference, l)
      | Ptr b \<Rightarrow>
          (case tryAdmit (lims l b) now of
             None \<Rightarrow> (Inl UnspecifiedRate, l)
           | Some (ok, bk) \<Rightarrow> (Inr ok, l\<lparr>lims := (lims l)(b := bk)\<rparr>)))"

subsection \<open>visitor\<close>

text \<open>
  Lines 110 to 119, the branch of an absent identity: a new bucket, a new record that points
  to it, the map slot overwritten under the write lock, the bucket returned.
\<close>

definition visitor_insert :: "limiter_t \<Rightarrow> string \<Rightarrow> time \<Rightarrow> ptr \<times> limiter_t" where
  "visitor_insert l ip now =
     (let a = fresh l
      in (Ptr a,
          l\<lparr> lims := (lims l)(a := NewLimiter (limit l) (burst (opts l))),
             recs := (recs l)(a := \<lparr>lastSeen = now, limiter = Ptr a\<rparr>),
             storage := AList.update ip (Ptr a) (storage l),
             fresh := Suc a \<rparr>))"

text \<open>
  Lines 122 to 128, the branch of a found identity: \<^verbatim>\<open>lastSeen\<close> is written through the
  pointer unless it is \<^verbatim>\<open>nil\<close>, and \<^verbatim>\<open>v.limiter\<close> is read in either case.
\<close>

definition visitor_found :: "limiter_t \<Rightarrow> ptr \<Rightarrow> time \<Rightarrow> (error + ptr) \<times> limiter_t" where
  "visitor_found l v now =
     (case v of
        nil \<Rightarrow> (Inl NilPointerDereference, l)
      | Ptr a \<Rightarrow>
          (let l1 = l\<lparr>recs := (recs l)(a := (recs l a)\<lparr>lastSeen := now\<rparr>)\<rparr>
           in (Inr (limiter (recs l1 a)), l1)))"

definition visitor :: "limiter_t \<Rightarrow> string \<Rightarrow> time \<Rightarrow> (error + ptr) \<times> limiter_t" where
  "visitor l ip now =
     (case map_of (storage l) ip of
        None \<Rightarrow> (let (p, l1) = visitor_insert l ip now in (Inr p, l1))
      | Some v \<Rightarrow> visitor_found l v now)"

subsection \<open>cleanup\<close>

definition Since :: "time \<Rightarrow> time \<Rightarrow> duration" where
  "Since now t = now - t"

text \<open>The test of line 268, \<^verbatim>\<open>v == nil || time.Since(v.lastSeen) >= lim.opts.ttl\<close>.\<close>

definition expired :: "limiter_t \<Rightarrow> time \<Rightarrow> ptr \<Rightarrow> bool" where
  "expired l now v =
     (case v of nil \<Rightarrow> True | Ptr a \<Rightarrow> ttl (opts l) \<le> Since now (lastSeen (recs l a)))"

text \<open>The loop of lines 263 to 271 over the entries, appending to the scratch list.\<close>

fun cleanup_scan :: "limiter_t \<Rightarrow> time \<Rightarrow> (string \<times> ptr) list \<Rightarrow> string list \<Rightarrow> string list" where
  "cleanup_scan l now [] ex = ex"
| "cleanup_scan l now ((k, v) # kvs) ex =
     (let ex1 = (if v = nil then ex @ [k] else ex);
          ex2 = (if expired l now v then ex1 @ [k] else ex1)
      in cleanup_scan l now kvs ex2)"

text \<open>The loop of lines 275 to 277.\<close>

fun cleanup_delete :: "(string \<times> ptr) list \<Rightarrow> string list \<Rightarrow> (string \<times> ptr) list" where
  "cleanup_delete m [] = m"
| "cleanup_delete m (k # ks) = cleanup_delete (AList.delete k m) ks"

text \<open>
  Line 260: \<^verbatim>\<open>make([]string, len(lim.storage)>>1)\<close> is a slice of that \<^emph>\<open>length\<close>,
  filled with the zero value of a string, the empty string.
\<close>

definition cleanup_make :: "limiter_t \<Rightarrow> string list" where
  "cleanup_make l = replicate (length (storage l) div 2) []"

definition cleanup :: "limiter_t \<Rightarrow> time \<Rightarrow> limiter_t" where
  "cleanup l now =
     (let ex0 = cleanup_make l;
          ex = cleanup_scan l now (storage l) ex0
      in l\<lparr>storage := cleanup_delete (storage l) ex\<rparr>)"

subsection \<open>The middleware\<close>

text \<open>
  Both handlers are modelled from the test \<^verbatim>\<open>l.whiteListed(ip)\<close> on; the identity
  \<open>ip\<close> that the lines before it extract from the request is a parameter. A handler
  returns what it did to the request, in order. The clock is read once in
  \<^verbatim>\<open>visitor\<close> (\<open>tv\<close>) and once in \<^verbatim>\<open>Allow\<close> (\<open>ta\<close>).
\<close>

datatype action = Next | TooManyRequests | Abort | Panic error

text \<open>The expression \<^verbatim>\<open>l.visitor(ip).Allow()\<close> of lines 42 and 72.\<close>

definition visitor_Allow :: "limiter_t \<Rightarrow> string \<Rightarrow> time \<Rightarrow> time \<Rightarrow> (error + bool) \<times> limiter_t" where
  "visitor_Allow l ip tv ta =
     (case visitor l ip tv of
        (Inl e, l1) \<Rightarrow> (Inl e, l1)
      | (Inr p, l1) \<Rightarrow> Allow l1 p ta)"

definition Limit :: "limiter_t \<Rightarrow> string \<Rightarrow> time \<Rightarrow> time \<Rightarrow> action list \<times> limiter_t" where
  "Limit l ip tv ta =
     (if whiteListed l ip then ([Next], l)
      else (case visitor_Allow l ip tv ta of
              (Inl e, l1) \<Rightarrow> ([Panic e], l1)
            | (Inr ok, l1) \<Rightarrow> if \<not> ok then ([TooManyRequests], l1) else ([Next], l1)))"

definition GinLimit :: "limiter_t \<Rightarrow> string \<Rightarrow> time \<Rightarrow> time \<Rightarrow> action list \<times> limiter_t" where
  "GinLimit l ip tv ta =
     (let done = (if whiteListed l ip then [Next] else [])
      in (case visitor_Allow l ip tv ta of
            (Inl e, l1) \<Rightarrow> (done @ [Panic e], l1)
          | (Inr ok, l1) \<Rightarrow>
              if \<not> ok then (done @ [TooManyRequests, Abort], l1) else (done @ [Next], l1)))"

text \<open>Successive requests of one identity, each with its two clock readings.\<close>

fun requests_of :: "limiter_t \<Rightarrow> string \<Rightarrow> (time \<times> time) list \<Rightarrow> (error + bool) list \<times> limiter_t" where
  "requests_of l ip [] = ([], l)"
| "requests_of l ip ((tv, ta) # ts) =
     (let (r, l1) = visitor_Allow l ip tv ta;
          (rs, l2) = requests_of l1 ip ts
      in (r # rs, l2))"

subsection \<open>Concurrent calls\<close>

text \<open>
  A call of \<^verbatim>\<open>visitor\<close> or \<^verbatim>\<open>cleanup\<close> in progress. Every step is one section under
  the lock (or a computation on locals only), so the runs of the program are the
  interleavings of these steps: \<open>VStart\<close> reads the map under the read lock,
  \<open>VMiss\<close> and \<open>VHit\<close> write under the write lock and return; \<open>CStart\<close> makes
  the scratch list, \<open>CMade\<close> scans under the read lock, \<open>CScanned\<close> deletes under the
  write lock. The goroutine of \<^verbatim>\<open>scheduleCleanup\<close> that \<^verbatim>\<open>New\<close> starts calls
  \<^verbatim>\<open>cleanup\<close> once per tick until the stop channel is closed: each of its sweeps is
  one \<open>CStart\<close> thread of a schedule.
\<close>

datatype thread =
    VStart string | VMiss string | VHit ptr | VDone "error + ptr"
  | CStart | CMade "string list" | CScanned "string list" | CDone

fun thread_step :: "time \<Rightarrow> thread \<Rightarrow> limiter_t \<Rightarrow> thread \<times> limiter_t" where
  "thread_step now (VStart ip) l =
     (case map_of (storage l) ip of None \<Rightarrow> (VMiss ip, l) | Some v \<Rightarrow> (VHit v, l))"
| "thread_step now (VMiss ip) l =
     (let (p, l1) = visitor_insert l ip now in (VDone (Inr p), l1))"
| "thread_step now (VHit v) l =
     (let (r, l1) = visitor_found l v now in (VDone r, l1))"
| "thread_step now (VDone r) l = (VDone r, l)"
| "thread_step now CStart l = (CMade (cleanup_make l), l)"
| "thread_step now (CMade ex) l = (CScanned (cleanup_scan l now (storage l) ex), l)"
| "thread_step now (CScanned ex) l = (CDone, l\<lparr>storage := cleanup_delete (storage l) ex\<rparr>)"
| "thread_step now CDone l = (CDone, l)"

text \<open>A schedule names, step by step, the thread that moves and the clock it reads.\<close>

fun run :: "(nat \<times> time) list \<Rightarrow> thread list \<Rightarrow> limiter_t \<Rightarrow> thread list \<times> limiter_t" where
  "run [] ts l = (ts, l)"
| "run ((i, now) # sched) ts l =
     (if i < length ts
      then (let (t1, l1) = thread_step now (ts ! i) l in run sched (ts[i := t1]) l1)
      else run sched ts l)"

fun starting :: "thread \<Rightarrow> bool" where
  "starting (VStart ip) = True"
| "starting CStart = True"
| "starting t = False"

text \<open>The states of the registry that the calls keep.\<close>

definition entry_ok :: "limiter_t \<Rightarrow> ptr \<Rightarrow> bool" where
  "entry_ok l v = (case v of nil \<Rightarrow> False | Ptr a \<Rightarrow> a < fresh l)"

definition registry_ok :: "limiter_t \<Rightarrow> bool" where
  "registry_ok l = (distinct (map fst (storage l))
                    \<and> list_all (\<lambda>kv. entry_ok l (snd kv)) (storage l)
                    \<and> list_all (\<lambda>a. limiter (recs l a) = Ptr a) [0..<fresh l])"

fun thread_ok :: "limiter_t \<Rightarrow> thread \<Rightarrow> bool" where
  "thread_ok l (VHit v) = entry_ok l v"
| "thread_ok l (VDone r) = (case r of Inl e \<Rightarrow> False | Inr p \<Rightarrow> entry_ok l p)"
| "thread_ok l t = True"

section \<open>Properties\<close>

subsection \<open>Evaluation\<close>

lemmas option_defs = defautlOptions_def defaultRps_def defaultBurst_def defaultTTL_def
  defaultCleanupFrequency_def defaultPeriod_def Second_def Minute_def XOFF_def
  RpsWithBurst_def Rps_def Burst_def Period_def CleanupFrequency_def RecordTTL_def
  AllowedIPs_def AllowedPrefixes_def IPHeader_def

lemmas visitor_defs = visitor_def visitor_insert_def visitor_found_def

lemmas cleanup_defs = cleanup_def cleanup_make_def expired_def Since_def

lemmas Allow_defs = Allow_def tryAdmit_def NewLimiter_def Seconds_def visitor_Allow_def

subsection \<open>Allow-list\<close>

lemma HasPrefix_iff_prefix: "HasPrefix s p \<longleftrightarrow> prefix p s"
proof
  assume "HasPrefix s p"
  then have "take (length p) s = p" by (simp add: HasPrefix_def)
  then show "prefix p s" by (metis take_is_prefix)
next
  assume "prefix p s"
  then obtain zs where "s = p @ zs" by (auto simp: prefix_def)
  then show "HasPrefix s p" by (simp add: HasPrefix_def)
qed

lemma hasWhitelistedPrefix_loop_iff:
  "hasWhitelistedPrefix_loop ps ip \<longleftrightarrow> (\<exists>p \<in> set ps. prefix p ip)"
  by (induction ps) (auto simp: HasPrefix_iff_prefix)

text \<open>
  C10: \<^verbatim>\<open>whiteListed(identity)\<close> is true exactly when the identity is one of the
  configured exact identities or some configured prefix is a prefix of it; the prefix
  \<^verbatim>\<open>10.\<close> matches \<^verbatim>\<open>10.0.0.2\<close> and does not match \<^verbatim>\<open>110.0.0.2\<close>.
\<close>

theorem whiteListed_iff:
  "(whiteListed l ip \<longleftrightarrow>
      ip \<in> set (allowedIPs (opts l)) \<or> (\<exists>p \<in> set (allowedPrefix (opts l)). prefix p ip))
   \<and> whiteListed (New [AllowedPrefixes [''10.'']]) ''10.0.0.2''
   \<and> \<not> whiteListed (New [AllowedPrefixes [''10.'']]) ''110.0.0.2''"
proof (intro conjI)
  show "whiteListed l ip \<longleftrightarrow>
      ip \<in> set (allowedIPs (opts l)) \<or> (\<exists>p \<in> set (allowedPrefix (opts l)). prefix p ip)"
    by (simp add: whiteListed_def hasWhitelistedPrefix_def hasWhitelistedPrefix_loop_iff)
  show "whiteListed (New [AllowedPrefixes [''10.'']]) ''10.0.0.2''"
    by (simp add: whiteListed_def hasWhitelistedPrefix_def HasPrefix_def New_def option_defs)
  show "\<not> whiteListed (New [AllowedPrefixes [''10.'']]) ''110.0.0.2''"
    by (simp add: whiteListed_def hasWhitelistedPrefix_def HasPrefix_def New_def option_defs)
qed

theorem whiteListed_iff_witness:
  "whiteListed (New [AllowedIPs [''192.168.1.1''], AllowedPrefixes [''10.'']]) ''192.168.1.1''
   \<and> \<not> whiteListed (New [AllowedIPs [''192.168.1.1''], AllowedPrefixes [''10.'']]) ''192.168.1.10''"
  using whiteListed_iff [of "New [AllowedIPs [''192.168.1.1''], AllowedPrefixes [''10.'']]" "''192.168.1.1''"]
    whiteListed_iff [of "New [AllowedIPs [''192.168.1.1''], AllowedPrefixes [''10.'']]" "''192.168.1.10''"]
  by (simp add: New_def option_defs)

subsection \<open>Options\<close>

text \<open>
  C5: a negative burst given to \<^verbatim>\<open>RpsWithBurst\<close> becomes 10, the default of the
  requests per second, where the default burst is 20 and \<^verbatim>\<open>Burst\<close> does use 20.
\<close>

theorem RpsWithBurst_negative_burst:
  "burst (opts (New [RpsWithBurst 5 (- 1)])) = 10
   \<and> burst (opts (New [Burst (- 1)])) = 20
   \<and> burst defautlOptions = 20"
  by (simp add: New_def option_defs)

subsection \<open>Stop\<close>

text \<open>
  C4, as the claim states it: a second \<^verbatim>\<open>Stop\<close> on the limiter of \<^verbatim>\<open>New()\<close> is
  the panic of closing a closed channel.
\<close>

theorem Stop_twice_panics:
  "Stop (New []) = Inr ((New [])\<lparr>stop := Closed\<rparr>)
   \<and> Stop ((New [])\<lparr>stop := Closed\<rparr>) = Inl CloseOfClosedChannel"
  by (simp add: Stop_def New_def)

text \<open>
  C4, amended: for every limiter constructed by \<^verbatim>\<open>New\<close>, the first \<^verbatim>\<open>Stop\<close>
  succeeds and closes the stop channel, and changes nothing else; \<^verbatim>\<open>Stop\<close> on the
  limiter so stopped panics, for there is no guard.
\<close>

theorem Stop_once_then_panic:
  "Stop (New os) = Inr ((New os)\<lparr>stop := Closed\<rparr>)
   \<and> Stop ((New os)\<lparr>stop := Closed\<rparr>) = Inl CloseOfClosedChannel"
  by (simp add: Stop_def New_def Let_def)

subsection \<open>Lookups keep the registry\<close>

text \<open>
  C9: a lookup removes no entry. The identities of the registry after \<^verbatim>\<open>visitor\<close> include
  those before it, at most the identity looked up is new, and every entry that was there
  still holds the same record.
\<close>

theorem visitor_keeps_entries:
  "fst ` set (storage l) \<subseteq> fst ` set (storage (snd (visitor l ip now)))
   \<and> fst ` set (storage (snd (visitor l ip now))) \<subseteq> insert ip (fst ` set (storage l))
   \<and> (\<forall>k v. map_of (storage l) k = Some v \<longrightarrow> map_of (storage (snd (visitor l ip now))) k = Some v)"
  by (auto simp: visitor_defs Let_def dom_update update_conv'
           split: option.splits ptr.splits)

theorem visitor_keeps_entries_witness:
  "map_of (storage (snd (visitor (New []) ''a'' 0))) ''a'' = Some (Ptr 0)
   \<and> map_of (storage (snd (visitor (snd (visitor (New []) ''a'' 0)) ''b'' 1))) ''a'' = Some (Ptr 0)"
proof -
  have h: "map_of (storage (snd (visitor (New []) ''a'' 0))) ''a'' = Some (Ptr 0)"
    by (simp add: visitor_defs New_def Let_def)
  with visitor_keeps_entries [of "snd (visitor (New []) ''a'' 0)" "''b''" 1]
  show ?thesis by blast
qed

subsection \<open>cleanup\<close>

text \<open>What a sweep leaves of the registry, for every state.\<close>

lemma cleanup_scan_set:
  "set (cleanup_scan l now kvs ex) = set ex \<union> {k. \<exists>v. (k, v) \<in> set kvs \<and> expired l now v}"
proof (induction kvs arbitrary: ex)
  case Nil
  then show ?case by simp
next
  case (Cons kv kvs)
  obtain k v where kv: "kv = (k, v)" by (cases kv)
  let ?ex1 = "if v = nil then ex @ [k] else ex"
  let ?ex2 = "if expired l now v then ?ex1 @ [k] else ?ex1"
  have "v = nil \<Longrightarrow> expired l now v" by (simp add: expired_def)
  then have "set ?ex2 = set ex \<union> (if expired l now v then {k} else {})" by auto
  with Cons.IH [of ?ex2] show ?case by (auto simp: kv Let_def)
qed

lemma map_of_cleanup_delete:
  "map_of (cleanup_delete m ks) k = (if k \<in> set ks then None else map_of m k)"
  by (induction ks arbitrary: m) (auto simp: delete_conv')

lemma cleanup_lookup:
  "map_of (storage (cleanup l now)) k =
     (if (k = [] \<and> 2 \<le> length (storage l)) \<or> (\<exists>v. (k, v) \<in> set (storage l) \<and> expired l now v)
      then None else map_of (storage l) k)"
proof -
  have "k \<in> set (cleanup_make l) \<longleftrightarrow> k = [] \<and> 2 \<le> length (storage l)"
    by (auto simp: cleanup_make_def)
  then show ?thesis
    by (simp add: cleanup_def Let_def map_of_cleanup_delete cleanup_scan_set)
qed

text \<open>
  C1: the registry holds the empty identity and \<^verbatim>\<open>1.1.1.1\<close>, both seen at time 0, and
  the time to live is five minutes. A sweep one nanosecond later deletes the entry of the
  empty identity: the scratch list starts with one empty string, not with no string.
\<close>

theorem cleanup_deletes_fresh_empty_identity:
  "storage (snd (visitor (snd (visitor (New []) [] 0)) ''1.1.1.1'' 0))
     = [([], Ptr 0), (''1.1.1.1'', Ptr 1)]
   \<and> lastSeen (recs (snd (visitor (snd (visitor (New []) [] 0)) ''1.1.1.1'' 0)) 0) = 0
   \<and> ttl (opts (snd (visitor (snd (visitor (New []) [] 0)) ''1.1.1.1'' 0))) = 300000000000
   \<and> storage (cleanup (snd (visitor (snd (visitor (New []) [] 0)) ''1.1.1.1'' 0)) 1)
     = [(''1.1.1.1'', Ptr 1)]"
  by (simp add: visitor_defs New_def Let_def option_defs cleanup_defs)

subsection \<open>The middleware\<close>

lemma Limit_whiteListed: "whiteListed l ip \<Longrightarrow> Limit l ip tv ta = ([Next], l)"
  by (simp add: Limit_def)

text \<open>
  C3: \<^verbatim>\<open>GinLimit\<close> does not return after \<^verbatim>\<open>c.Next()\<close> for an allow-listed identity.
  With the options of the repository's test \<^verbatim>\<open>allow_whitelisted_ip\<close> the handler goes on
  to create the registry entry of \<^verbatim>\<open>1.1.1.1\<close> and to answer 429; with the default rate
  it creates the entry and calls \<^verbatim>\<open>c.Next()\<close> a second time.
\<close>

theorem GinLimit_whiteListed_touches_registry:
  "whiteListed (New [AllowedIPs [''1.1.1.1''], RpsWithBurst 0 0]) ''1.1.1.1''
   \<and> storage (New [AllowedIPs [''1.1.1.1''], RpsWithBurst 0 0]) = []
   \<and> fst (GinLimit (New [AllowedIPs [''1.1.1.1''], RpsWithBurst 0 0]) ''1.1.1.1'' 0 0)
       = [Next, TooManyRequests, Abort]
   \<and> storage (snd (GinLimit (New [AllowedIPs [''1.1.1.1''], RpsWithBurst 0 0]) ''1.1.1.1'' 0 0))
       = [(''1.1.1.1'', Ptr 0)]
   \<and> fst (GinLimit (New [AllowedIPs [''1.1.1.1'']]) ''1.1.1.1'' 0 0) = [Next, Next]
   \<and> storage (snd (GinLimit (New [AllowedIPs [''1.1.1.1'']]) ''1.1.1.1'' 0 0))
       = [(''1.1.1.1'', Ptr 0)]"
  by (simp add: GinLimit_def whiteListed_def hasWhitelistedPrefix_def visitor_defs New_def Let_def
      option_defs Allow_defs New_limit_def)

subsection \<open>Concurrent calls\<close>

text \<open>A call that runs alone is the sequential function.\<close>

lemma visitor_alone:
  "run [(0, now), (0, now)] [VStart ip] l = ([VDone (fst (visitor l ip now))], snd (visitor l ip now))"
  by (simp add: visitor_def Let_def split: option.splits prod.splits)

lemma cleanup_alone:
  "run [(0, t0), (0, now), (0, t2)] [CStart] l = ([CDone], cleanup l now)"
  by (simp add: cleanup_def Let_def)

text \<open>
  C2: two callers look \<^verbatim>\<open>1.1.1.1\<close> up in an empty registry. Both read the map before
  either writes it: the first caller returns bucket 0, the second returns bucket 1, and the
  one entry that survives holds bucket 1.
\<close>

theorem racing_visitors_get_two_buckets:
  "fst (run [(0, 0), (1, 0), (0, 1), (1, 1)] [VStart ''1.1.1.1'', VStart ''1.1.1.1''] (New []))
     = [VDone (Inr (Ptr 0)), VDone (Inr (Ptr 1))]
   \<and> storage (snd (run [(0, 0), (1, 0), (0, 1), (1, 1)] [VStart ''1.1.1.1'', VStart ''1.1.1.1''] (New [])))
     = [(''1.1.1.1'', Ptr 1)]
   \<and> limiter (recs (snd (run [(0, 0), (1, 0), (0, 1), (1, 1)] [VStart ''1.1.1.1'', VStart ''1.1.1.1''] (New []))) 1)
     = Ptr 1"
  by (simp add: visitor_defs New_def Let_def)

subsection \<open>The registry holds no nil record\<close>

lemma registry_ok_iff:
  "registry_ok l \<longleftrightarrow>
     distinct (map fst (storage l))
     \<and> (\<forall>kv \<in> set (storage l). entry_ok l (snd kv))
     \<and> (\<forall>a < fresh l. limiter (recs l a) = Ptr a)"
  by (auto simp: registry_ok_def list_all_iff)

lemma registry_ok_New: "registry_ok (New os)"
  by (simp add: registry_ok_def New_def Let_def)

lemma entry_ok_mono: "entry_ok l v \<Longrightarrow> fresh l \<le> fresh l' \<Longrightarrow> entry_ok l' v"
  by (auto simp: entry_ok_def split: ptr.splits)

lemma thread_ok_mono: "thread_ok l t \<Longrightarrow> fresh l \<le> fresh l' \<Longrightarrow> thread_ok l' t"
  by (cases t) (auto intro: entry_ok_mono split: sum.splits)

lemma starting_thread_ok: "starting t \<Longrightarrow> thread_ok l t"
  by (cases t) auto

lemma lookup_entry_ok: "registry_ok l \<Longrightarrow> map_of (storage l) ip = Some v \<Longrightarrow> entry_ok l v"
  by (auto simp: registry_ok_iff list_all_iff dest: map_of_SomeD)

lemma set_update_subset: "set (AList.update k v al) \<subseteq> insert (k, v) (set al)"
  by (induction al) auto

lemma set_delete_subset: "set (AList.delete k al) \<subseteq> set al"
  by (auto simp: AList.delete_eq)

lemma registry_ok_insert:
  assumes "registry_ok l"
  shows "registry_ok (snd (visitor_insert l ip now))"
proof -
  let ?l1 = "snd (visitor_insert l ip now)"
  have st: "storage ?l1 = AList.update ip (Ptr (fresh l)) (storage l)"
    and fr: "fresh ?l1 = Suc (fresh l)"
    and rc: "recs ?l1 = (recs l)(fresh l := \<lparr>lastSeen = now, limiter = Ptr (fresh l)\<rparr>)"
    by (simp_all add: visitor_insert_def Let_def)
  have d: "distinct (map fst (storage ?l1))"
    using assms by (simp add: st registry_ok_iff distinct_update)
  have "entry_ok ?l1 (snd kv)" if "kv \<in> set (storage ?l1)" for kv
  proof -
    from that set_update_subset [of ip "Ptr (fresh l)" "storage l"]
    have "kv = (ip, Ptr (fresh l)) \<or> kv \<in> set (storage l)" by (auto simp: st)
    then show ?thesis
    proof
      assume "kv = (ip, Ptr (fresh l))"
      then show ?thesis by (simp add: entry_ok_def fr)
    next
      assume "kv \<in> set (storage l)"
      with assms have "entry_ok l (snd kv)" by (simp add: registry_ok_iff list_all_iff)
      then show ?thesis by (rule entry_ok_mono) (simp add: fr)
    qed
  qed
  then have e: "list_all (\<lambda>kv. entry_ok ?l1 (snd kv)) (storage ?l1)"
    by (simp add: list_all_iff)
  have r: "\<forall>a < fresh ?l1. limiter (recs ?l1 a) = Ptr a"
    using assms by (auto simp: fr rc registry_ok_iff less_Suc_eq)
  from d e r show ?thesis by (simp add: registry_ok_iff list_all_iff)
qed

lemma registry_ok_found: "registry_ok l \<Longrightarrow> registry_ok (snd (visitor_found l v now))"
  by (auto simp: registry_ok_iff visitor_found_def entry_ok_def Let_def list_all_iff split: ptr.splits)

lemma cleanup_delete_keeps:
  "distinct (map fst m) \<Longrightarrow> distinct (map fst (cleanup_delete m ks)) \<and> set (cleanup_delete m ks) \<subseteq> set m"
proof (induction ks arbitrary: m)
  case Nil
  then show ?case by simp
next
  case (Cons k ks)
  from Cons.prems have "distinct (map fst (AList.delete k m))" by (rule distinct_delete)
  from Cons.IH [OF this] set_delete_subset [of k m] show ?case by auto
qed

lemma registry_ok_cleanup_delete:
  "registry_ok l \<Longrightarrow> registry_ok (l\<lparr>storage := cleanup_delete (storage l) ks\<rparr>)"
proof -
  assume ok: "registry_ok l"
  let ?l1 = "l\<lparr>storage := cleanup_delete (storage l) ks\<rparr>"
  from ok have "distinct (map fst (storage l))" by (simp add: registry_ok_iff)
  from cleanup_delete_keeps [OF this, of ks]
  have d: "distinct (map fst (storage ?l1))" and sub: "set (storage ?l1) \<subseteq> set (storage l)"
    by simp_all
  have "entry_ok ?l1 (snd kv)" if "kv \<in> set (storage ?l1)" for kv
  proof -
    from that sub have "kv \<in> set (storage l)" by blast
    with ok have "entry_ok l (snd kv)" by (simp add: registry_ok_iff list_all_iff)
    then show ?thesis by (rule entry_ok_mono) simp
  qed
  then have e: "list_all (\<lambda>kv. entry_ok ?l1 (snd kv)) (storage ?l1)"
    by (simp add: list_all_iff)
  from ok have r: "\<forall>a < fresh ?l1. limiter (recs ?l1 a) = Ptr a"
    by (simp add: registry_ok_iff)
  from d e r show ?thesis by (simp add: registry_ok_iff list_all_iff)
qed

lemma fresh_thread_step: "fresh l \<le> fresh (snd (thread_step now t l))"
  by (cases t) (auto simp: visitor_insert_def visitor_found_def Let_def split: option.splits ptr.splits)

lemma registry_ok_thread_step:
  "registry_ok l \<Longrightarrow> registry_ok (snd (thread_step now t l))"
proof (cases t)
  case (VMiss ip)
  assume "registry_ok l"
  then show ?thesis using registry_ok_insert [of l ip now] by (simp add: VMiss split_beta)
next
  case (VHit v)
  assume "registry_ok l"
  then show ?thesis using registry_ok_found [of l v now] by (simp add: VHit split_beta)
next
  case (CScanned ex)
  assume "registry_ok l"
  then show ?thesis using registry_ok_cleanup_delete [of l ex] by (simp add: CScanned)
qed (auto split: option.splits)

lemma thread_ok_thread_step:
  assumes "registry_ok l" and "thread_ok l t"
  shows "thread_ok (snd (thread_step now t l)) (fst (thread_step now t l))"
proof (cases t)
  case (VStart ip)
  then show ?thesis using assms(1) by (auto split: option.splits dest: lookup_entry_ok)
next
  case (VMiss ip)
  then show ?thesis by (simp add: visitor_insert_def Let_def entry_ok_def)
next
  case (VHit v)
  with assms show ?thesis
    by (auto simp: visitor_found_def Let_def entry_ok_def registry_ok_iff split: ptr.splits)
next
  case (VDone r)
  with assms show ?thesis by simp
qed auto

lemma run_ok:
  "registry_ok l \<Longrightarrow> list_all (thread_ok l) ts \<Longrightarrow>
   registry_ok (snd (run sched ts l)) \<and> list_all (thread_ok (snd (run sched ts l))) (fst (run sched ts l))"
proof (induction sched arbitrary: ts l)
  case Nil
  then show ?case by simp
next
  case (Cons s sched)
  obtain i now where s: "s = (i, now)" by (cases s)
  show ?case
  proof (cases "i < length ts")
    case False
    with Cons s show ?thesis by simp
  next
    case True
    let ?t1 = "fst (thread_step now (ts ! i) l)"
    let ?l1 = "snd (thread_step now (ts ! i) l)"
    from Cons.prems True have ti: "thread_ok l (ts ! i)" by (simp add: list_all_length)
    have r1: "registry_ok ?l1" using Cons.prems(1) by (rule registry_ok_thread_step)
    have t1: "thread_ok ?l1 ?t1" using Cons.prems(1) ti by (rule thread_ok_thread_step)
    have "thread_ok ?l1 u" if "u \<in> set (ts[i := ?t1])" for u
    proof -
      from that set_update_subset_insert [of ts i ?t1] have "u = ?t1 \<or> u \<in> set ts" by auto
      then show ?thesis
      proof
        assume "u = ?t1" with t1 show ?thesis by simp
      next
        assume "u \<in> set ts"
        with Cons.prems(2) have "thread_ok l u" by (simp add: list_all_iff)
        then show ?thesis using fresh_thread_step by (rule thread_ok_mono)
      qed
    qed
    then have "list_all (thread_ok ?l1) (ts[i := ?t1])" by (simp add: list_all_iff)
    from Cons.IH [OF r1 this] True s show ?thesis by (simp add: split_beta)
  qed
qed

lemma visitor_returns_bucket:
  assumes "registry_ok l"
  shows "\<exists>b. fst (visitor l ip now) = Inr (Ptr b) \<and> b < fresh (snd (visitor l ip now))"
proof (cases "map_of (storage l) ip")
  case None
  then show ?thesis by (simp add: visitor_defs Let_def)
next
  case (Some v)
  with assms have "entry_ok l v" by (rule lookup_entry_ok)
  with assms Some show ?thesis
    by (auto simp: visitor_defs Let_def entry_ok_def registry_ok_iff split: ptr.splits)
qed

text \<open>
  C6: in every state that calls of \<^verbatim>\<open>visitor\<close> and \<^verbatim>\<open>cleanup\<close> reach from
  \<^verbatim>\<open>New\<close>, in any interleaving, no record of the registry is \<^verbatim>\<open>nil\<close>, no call of
  \<^verbatim>\<open>visitor\<close> has found a nil record or ended in a nil dereference, and a lookup of
  any identity returns a bucket.
\<close>

theorem stored_records_never_nil:
  assumes "list_all starting ts0" and "run sched ts0 (New os) = (ts, l)"
  shows "(\<forall>kv \<in> set (storage l). snd kv \<noteq> nil)
         \<and> (\<forall>t \<in> set ts. t \<noteq> VHit nil \<and> (\<forall>e. t \<noteq> VDone (Inl e)))
         \<and> (\<exists>b. fst (visitor l ip now) = Inr (Ptr b))"
proof -
  from assms(1) have "list_all (thread_ok (New os)) ts0"
    by (auto simp: list_all_iff intro: starting_thread_ok)
  with registry_ok_New [of os] run_ok [of "New os" ts0 sched] assms(2)
  have ok: "registry_ok l" and tok: "list_all (thread_ok l) ts" by auto
  from ok have "\<forall>kv \<in> set (storage l). snd kv \<noteq> nil"
    by (auto simp: registry_ok_iff list_all_iff entry_ok_def)
  moreover from tok have "\<forall>t \<in> set ts. t \<noteq> VHit nil \<and> (\<forall>e. t \<noteq> VDone (Inl e))"
    by (auto simp: list_all_iff entry_ok_def)
  moreover from ok visitor_returns_bucket [of l ip now]
  have "\<exists>b. fst (visitor l ip now) = Inr (Ptr b)" by blast
  ultimately show ?thesis by blast
qed

theorem stored_records_never_nil_witness:
  "list_all starting [VStart ''a'', CStart, VStart ''a'']
   \<and> fst (run [(0, 1), (1, 2), (2, 3), (0, 4), (2, 5), (1, 6), (1, 7)] [VStart ''a'', CStart, VStart ''a''] (New []))
       = [VDone (Inr (Ptr 0)), CDone, VDone (Inr (Ptr 1))]
   \<and> (\<exists>b. fst (visitor (snd (run [(0, 1), (1, 2), (2, 3), (0, 4), (2, 5), (1, 6), (1, 7)]
                 [VStart ''a'', CStart, VStart ''a''] (New []))) ''a'' 8) = Inr (Ptr b))"
proof -
  have s: "list_all starting [VStart ''a'', CStart, VStart ''a'']" by simp
  have r: "fst (run [(0, 1), (1, 2), (2, 3), (0, 4), (2, 5), (1, 6), (1, 7)] [VStart ''a'', CStart, VStart ''a''] (New []))
       = [VDone (Inr (Ptr 0)), CDone, VDone (Inr (Ptr 1))]"
    by (simp add: visitor_defs New_def Let_def cleanup_make_def expired_def Since_def option_defs)
  from stored_records_never_nil [OF s prod.collapse [symmetric], of _ "[]" "''a''" 8] s r
  show ?thesis by blast
qed

subsection \<open>One identity, one bucket\<close>

lemma Allow_keeps_registry:
  "storage (snd (Allow l p now)) = storage l \<and> recs (snd (Allow l p now)) = recs l
   \<and> fresh (snd (Allow l p now)) = fresh l"
  by (auto simp: Allow_def split: ptr.splits option.splits)

lemma visitor_present: "map_of (storage (snd (visitor l ip now))) ip \<noteq> None"
  by (auto simp: visitor_defs Let_def update_conv' split: option.splits ptr.splits)

lemma storage_visitor_Allow:
  "storage (snd (visitor_Allow l ip tv ta)) = storage (snd (visitor l ip tv))"
  by (simp add: visitor_Allow_def Allow_keeps_registry split: prod.splits sum.splits)

lemma visitor_found_keeps_buckets:
  "map_of (storage l) ip \<noteq> None \<Longrightarrow> lims (snd (visitor l ip now)) = lims l"
  by (auto simp: visitor_defs Let_def split: option.splits ptr.splits)

lemma visitor_twice:
  assumes "registry_ok l"
  shows "\<exists>b. fst (visitor l ip t1) = Inr (Ptr b)
            \<and> fst (visitor (snd (visitor l ip t1)) ip t2) = Inr (Ptr b)
            \<and> fst (visitor (snd (visitor_Allow l ip t1 ta)) ip t2) = Inr (Ptr b)"
proof (cases "map_of (storage l) ip")
  case None
  then show ?thesis
    by (simp add: visitor_defs Let_def update_conv' visitor_Allow_def Allow_keeps_registry)
next
  case (Some v)
  with assms have "entry_ok l v" by (rule lookup_entry_ok)
  then obtain a where v: "v = Ptr a" and a: "a < fresh l"
    by (auto simp: entry_ok_def split: ptr.splits)
  from assms a have "limiter (recs l a) = Ptr a" by (simp add: registry_ok_iff)
  with Some v show ?thesis
    by (simp add: visitor_defs Let_def visitor_Allow_def Allow_keeps_registry)
qed

text \<open>
  C8: the empty string is a key like any other. A lookup of the empty identity returns a
  bucket, a second lookup returns the same bucket, also when the first caller has called
  \<^verbatim>\<open>Allow\<close> on it in between, and the second lookup leaves every bucket as that
  \<^verbatim>\<open>Allow\<close> left it: the callers draw on one allowance.
\<close>

theorem empty_identity_shares_one_bucket:
  assumes "registry_ok l"
  shows "\<exists>b. fst (visitor l [] t1) = Inr (Ptr b)
            \<and> fst (visitor (snd (visitor l [] t1)) [] t2) = Inr (Ptr b)
            \<and> fst (visitor (snd (visitor_Allow l [] t1 ta)) [] t2) = Inr (Ptr b)
            \<and> lims (snd (visitor (snd (visitor_Allow l [] t1 ta)) [] t2))
                = lims (snd (visitor_Allow l [] t1 ta))"
proof -
  from visitor_twice [OF assms, of "[]" t1 t2 ta] obtain b where
    b: "fst (visitor l [] t1) = Inr (Ptr b)"
       "fst (visitor (snd (visitor l [] t1)) [] t2) = Inr (Ptr b)"
       "fst (visitor (snd (visitor_Allow l [] t1 ta)) [] t2) = Inr (Ptr b)"
    by blast
  have "map_of (storage (snd (visitor_Allow l [] t1 ta))) [] \<noteq> None"
    by (simp add: storage_visitor_Allow visitor_present)
  then have "lims (snd (visitor (snd (visitor_Allow l [] t1 ta)) [] t2))
          = lims (snd (visitor_Allow l [] t1 ta))"
    by (rule visitor_found_keeps_buckets)
  with b show ?thesis by blast
qed

theorem empty_identity_shares_one_bucket_witness:
  "registry_ok (New [RpsWithBurst 1 1])
   \<and> (\<exists>b. fst (visitor (New [RpsWithBurst 1 1]) [] 0) = Inr (Ptr b)
          \<and> fst (visitor (snd (visitor_Allow (New [RpsWithBurst 1 1]) [] 0 0)) [] 1) = Inr (Ptr b))
   \<and> fst (requests_of (New [RpsWithBurst 1 1]) [] [(0, 0), (0, 0)]) = [Inr True, Inr False]"
proof -
  have ok: "registry_ok (New [RpsWithBurst 1 1])" by (rule registry_ok_New)
  have r: "fst (requests_of (New [RpsWithBurst 1 1]) [] [(0, 0), (0, 0)]) = [Inr True, Inr False]"
    by (simp add: visitor_defs New_def Let_def option_defs Allow_defs New_limit_def)
  from empty_identity_shares_one_bucket [OF ok, of 0 1 0] ok r show ?thesis by blast
qed

subsection \<open>A bucket that is never refilled\<close>

lemma visitor_Allow_found:
  assumes "map_of (storage l) ip = Some (Ptr a)" and "limiter (recs l a) = Ptr b"
    and "refillRate (lims l b) = Finite 0" and "capacity (lims l b) = C"
    and "tokens (lims l b) = real_of_int k" and "0 \<le> k" and "k \<le> C"
  shows "fst (visitor_Allow l ip tv ta) = Inr (1 \<le> k)"
    and "map_of (storage (snd (visitor_Allow l ip tv ta))) ip = Some (Ptr a)"
    and "limiter (recs (snd (visitor_Allow l ip tv ta)) a) = Ptr b"
    and "refillRate (lims (snd (visitor_Allow l ip tv ta)) b) = Finite 0"
    and "capacity (lims (snd (visitor_Allow l ip tv ta)) b) = C"
    and "tokens (lims (snd (visitor_Allow l ip tv ta)) b) = real_of_int (if 1 \<le> k then k - 1 else k)"
  using assms
  by (simp_all add: visitor_Allow_def visitor_def visitor_found_def Allow_def tryAdmit_def Let_def min_def)

lemma upt_map_shift:
  "map f [0..<Suc n] = f 0 # map (\<lambda>i. f (Suc i)) [0..<n]"
  by (simp add: upt_conv_Cons map_Suc_upt [symmetric] del: upt_Suc)

lemma requests_of_found:
  assumes "map_of (storage l) ip = Some (Ptr a)" and "limiter (recs l a) = Ptr b"
    and "refillRate (lims l b) = Finite 0" and "capacity (lims l b) = C"
    and "tokens (lims l b) = real_of_int k" and "0 \<le> k" and "k \<le> C"
  shows "fst (requests_of l ip ts) = map (\<lambda>i. Inr (int i < k)) [0..<length ts]"
  using assms
proof (induction ts arbitrary: l k)
  case Nil
  then show ?case by simp
next
  case (Cons t ts)
  obtain tv ta where t: "t = (tv, ta)" by (cases t)
  let ?l1 = "snd (visitor_Allow l ip tv ta)"
  let ?k1 = "if 1 \<le> k then k - 1 else k"
  note st = visitor_Allow_found [OF Cons.prems, of tv ta]
  have "0 \<le> ?k1" and "?k1 \<le> C" using Cons.prems(6,7) by auto
  from Cons.IH [OF st(2) st(3) st(4) st(5) st(6) this]
  have ih: "fst (requests_of ?l1 ip ts) = map (\<lambda>i. Inr (int i < ?k1)) [0..<length ts]" .
  have hd: "fst (visitor_Allow l ip tv ta) = Inr (0 < k)" using st(1) by auto
  have tl: "(\<lambda>i. (Inr (int i < ?k1) :: error + bool)) = (\<lambda>i. Inr (int (Suc i) < k))"
    using Cons.prems(6) by (auto simp: fun_eq_iff)
  show ?case
    by (simp add: t split_beta ih hd tl upt_map_shift del: upt_Suc)
qed

text \<open>
  C7: the limiter has the refill rate 0 and the burst \<open>C\<close>, and the identity is not in
  the registry yet. Of any number of successive requests of that identity, at whatever
  times, exactly those before the \<open>C\<close>-th are admitted.
\<close>

theorem zero_rate_admits_capacity:
  assumes "map_of (storage l) ip = None" and "limit l = Finite 0"
    and "burst (opts l) = C" and "0 \<le> C"
  shows "fst (requests_of l ip ts) = map (\<lambda>i. Inr (int i < C)) [0..<length ts]"
proof (cases ts)
  case Nil
  then show ?thesis by simp
next
  case (Cons t ts1)
  obtain tv ta where t: "t = (tv, ta)" by (cases t)
  let ?l1 = "snd (visitor_Allow l ip tv ta)"
  let ?a = "fresh l"
  let ?k1 = "if 1 \<le> C then C - 1 else C"
  have hd: "fst (visitor_Allow l ip tv ta) = Inr (0 < C)"
    using assms by (auto simp: visitor_Allow_def visitor_def visitor_insert_def Allow_def tryAdmit_def
        NewLimiter_def Let_def min_def)
  have st: "map_of (storage ?l1) ip = Some (Ptr ?a)" "limiter (recs ?l1 ?a) = Ptr ?a"
    "refillRate (lims ?l1 ?a) = Finite 0" "capacity (lims ?l1 ?a) = C"
    "tokens (lims ?l1 ?a) = real_of_int ?k1"
    using assms by (simp_all add: visitor_Allow_def visitor_def visitor_insert_def Allow_def tryAdmit_def
        NewLimiter_def Let_def min_def update_conv')
  have "0 \<le> ?k1" and "?k1 \<le> C" using assms(4) by auto
  from requests_of_found [OF st this]
  have rest: "fst (requests_of ?l1 ip ts1) = map (\<lambda>i. Inr (int i < ?k1)) [0..<length ts1]" .
  have tl: "(\<lambda>i. (Inr (int i < ?k1) :: error + bool)) = (\<lambda>i. Inr (int (Suc i) < C))"
    using assms(4) by (auto simp: fun_eq_iff)
  show ?thesis
    by (simp add: Cons t split_beta rest hd tl upt_map_shift del: upt_Suc)
qed

lemma Period_zero_requests:
  "per \<noteq> 0 \<Longrightarrow> limit (New [Period 0 per]) = Finite 0"
  by (simp add: New_def Period_def New_limit_def Let_def option_defs Seconds_def)


theorem zero_rate_admits_capacity_witness:
  "limit (New [Period 0 (5 * Second), Burst 3]) = Finite 0
   \<and> fst (requests_of (New [Period 0 (5 * Second), Burst 3]) ''1.1.1.1'' [(0, 0), (1, 1), (2, 2), (3, 3), (4, 4)])
     = [Inr True, Inr True, Inr True, Inr False, Inr False]"
proof -
  have a: "map_of (storage (New [Period 0 (5 * Second), Burst 3])) ''1.1.1.1'' = None"
    by (simp add: New_def Let_def)
  have b: "limit (New [Period 0 (5 * Second), Burst 3]) = Finite 0"
    by (simp add: New_def Period_def Burst_def New_limit_def Let_def option_defs Seconds_def)
  have c: "burst (opts (New [Period 0 (5 * Second), Burst 3])) = 3"
    by (simp add: New_def Period_def Burst_def Let_def option_defs)
  have d: "(0::int) \<le> 3" by simp
  have e: "[0..<5] = [0, 1, 2, 3, 4]" by (simp add: upt_rec)
  from zero_rate_admits_capacity [OF a b c d, of "[(0, 0), (1, 1), (2, 2), (3, 3), (4, 4)]"] b e
  show ?thesis by simp
qed

end
